theory Spec2Isabelle
  imports Main "HOL-Library.Word"
begin

section \<open>Lightning.cpp: post-processing of lightning sensor data\<close>

text \<open>
  The embedding follows \<^verbatim>\<open>src/src/Lightning.cpp\<close> in the build without
  \<^verbatim>\<open>LIGHTNING_USE_PREFS\<close> (the record lives in RTC RAM, so \<^verbatim>\<open>update\<close> neither
  loads nor saves it).

  \<^item> \<^verbatim>\<open>int16_t\<close>, \<^verbatim>\<open>uint16_t\<close>, \<^verbatim>\<open>uint8_t\<close> and \<^verbatim>\<open>int\<close> are words of 16, 16, 8 and
    32 bits; a narrowing assignment is \<open>ucast\<close>, the promotion of an \<^verbatim>\<open>int16_t\<close> to
    \<^verbatim>\<open>int\<close> is \<open>scast\<close> (sign extension), that of a \<^verbatim>\<open>uint16_t\<close> is \<open>ucast\<close> (zero
    extension), and \<^verbatim>\<open>int\<close> arithmetic wraps around.
  \<^item> \<^verbatim>\<open>time_t\<close> values are integers. The source only subtracts two of them and adds the
    bucket period to one; a signed overflow there is undefined in C and is not modelled.
  \<^item> \<^verbatim>\<open>Lightning.h\<close> is not part of the sources. What \<^verbatim>\<open>Lightning.cpp\<close> takes from it
    and from the C library is a parameter of the model, collected in \<open>config\<close>.
  \<^item> Writing \<^verbatim>\<open>hist[idx]\<close> outside the array and dividing by a zero
    \<^verbatim>\<open>LIGHTNING_UPD_RATE\<close> are errors of the model.
\<close>

record config =
  LIGHTNING_HIST_SIZE :: nat      \<comment> \<open>macro of Lightning.h: number of history buckets\<close>
  LIGHTNING_UPD_RATE :: nat       \<comment> \<open>macro of Lightning.h: minutes per bucket\<close>
  hist_init_default :: "16 word"  \<comment> \<open>default argument of \<^verbatim>\<open>hist_init(uint16_t count)\<close>, declared in Lightning.h\<close>
  tm_min :: "int \<Rightarrow> nat"          \<comment> \<open>\<^verbatim>\<open>localtime_r(&t, &timeinfo); timeinfo.tm_min\<close>\<close>

text \<open>\<^verbatim>\<open>nvLightning_t\<close>, lines 76 to 89.\<close>

record nvLightning_t =
  lastUpdate :: int
  prevCount :: "16 word"
  events :: "16 word"
  distance :: "8 word"
  timestamp :: int
  hist :: "32 word list"

datatype error = DivisionByZero | HistIndexOutOfBounds

text \<open>The static initialiser of \<^verbatim>\<open>nvLightning\<close>, lines 94 to 110 (both variants are equal).\<close>

definition nvLightning :: "config \<Rightarrow> nvLightning_t" where
  "nvLightning cfg =
     \<lparr>lastUpdate = 0, prevCount = - 1, events = 0, distance = 0, timestamp = 0,
      hist = replicate (LIGHTNING_HIST_SIZE cfg) 0\<rparr>"

text \<open>\<^verbatim>\<open>Lightning::reset\<close>, lines 113 to 121.\<close>

definition reset :: "nvLightning_t \<Rightarrow> nvLightning_t" where
  "reset s = s\<lparr>lastUpdate := 0, prevCount := - 1, events := - 1, distance := 0, timestamp := 0\<rparr>"

text \<open>\<^verbatim>\<open>Lightning::hist_init\<close>, lines 123 to 129: the loop over \<open>i < LIGHTNING_HIST_SIZE\<close>.\<close>

definition hist_init :: "config \<Rightarrow> 16 word \<Rightarrow> nvLightning_t \<Rightarrow> nvLightning_t" where
  "hist_init cfg count s =
     s\<lparr>hist := fold (\<lambda>i h. h[i := ucast count]) [0..<LIGHTNING_HIST_SIZE cfg] (hist s)\<rparr>"

text \<open>The bucket of a time: lines 212 to 214 and 228 to 230.\<close>

definition hist_idx :: "config \<Rightarrow> int \<Rightarrow> nat" where
  "hist_idx cfg t = tm_min cfg t div LIGHTNING_UPD_RATE cfg"

text \<open>
  The loop of lines 227 to 232, from \<open>ts\<close> on:
  \<^verbatim>\<open>for (ts = ...; ts < timestamp; ts += LIGHTNING_UPD_RATE * 60) hist[idx(ts)] = -1\<close>.
\<close>

function mark_invalid :: "config \<Rightarrow> int \<Rightarrow> int \<Rightarrow> 32 word list \<Rightarrow> error + 32 word list" where
  "mark_invalid cfg ts t h =
     (if ts < t then
        (if LIGHTNING_UPD_RATE cfg = 0 then Inl DivisionByZero
         else if hist_idx cfg ts < LIGHTNING_HIST_SIZE cfg
           then mark_invalid cfg (ts + int (LIGHTNING_UPD_RATE cfg * 60)) t (h[hist_idx cfg ts := - 1])
           else Inl HistIndexOutOfBounds)
      else Inr h)"
  by pat_completeness auto
termination
  by (relation "measure (\<lambda>(cfg, ts, t, h). nat (t - ts))") auto

declare mark_invalid.simps [simp del]

text \<open>\<^verbatim>\<open>Lightning::update\<close>, lines 162 to 247. The parameter \<open>startup\<close> is unused, as in the source.\<close>

definition update ::
  "config \<Rightarrow> nvLightning_t \<Rightarrow> int \<Rightarrow> 32 word \<Rightarrow> 8 word \<Rightarrow> bool \<Rightarrow> error + nvLightning_t" where
  "update cfg s0 t count dist startup =
     (let s1 = (if prevCount s0 = - 1 then hist_init cfg (hist_init_default cfg) s0 else s0)
      in if prevCount s1 = - 1 \<or> sint count < sint (prevCount s1)
         then Inr (s1\<lparr>prevCount := ucast count\<rparr>)
         else
           let s2 = (if sint (prevCount s1) < sint count
                     then s1\<lparr>events := ucast (count - scast (prevCount s1)),
                             prevCount := ucast count,
                             distance := dist,
                             timestamp := t\<rparr>
                     else s1);
               t_delta = t - lastUpdate s2
           in if t_delta < 0 then Inr s2
              else
                let s3 = (if int (LIGHTNING_HIST_SIZE cfg * LIGHTNING_UPD_RATE cfg * 60) \<le> t_delta
                          then hist_init cfg (hist_init_default cfg) s2 else s2)
                in if LIGHTNING_UPD_RATE cfg = 0 then Inl DivisionByZero
                   else
                     let idx = hist_idx cfg t
                     in if \<not> idx < LIGHTNING_HIST_SIZE cfg then Inl HistIndexOutOfBounds
                        else
                          let s4 = s3\<lparr>hist := (hist s3)[idx := count - scast (prevCount s3)]\<rparr>
                          in case mark_invalid cfg (lastUpdate s4 + int (LIGHTNING_UPD_RATE cfg * 60)) t (hist s4) of
                               Inl e \<Rightarrow> Inl e
                             | Inr h \<Rightarrow> Inr (s4\<lparr>hist := h\<rparr>))"

text \<open>
  \<^verbatim>\<open>Lightning::lastEvent\<close>, lines 249 to 261. The three reference parameters are passed in
  and returned, with the record, so that what the call leaves alone is visible.
\<close>

definition lastEvent ::
  "nvLightning_t \<Rightarrow> int \<times> 32 word \<times> 8 word \<Rightarrow> bool \<times> (int \<times> 32 word \<times> 8 word) \<times> nvLightning_t" where
  "lastEvent s out =
     (if events s = - 1 then (False, out, s)
      else (True, (timestamp s, scast (events s), distance s), s))"

text \<open>
  \<^verbatim>\<open>Lightning::pastHour\<close>, lines 263 to 278: one step of the loop, then the function. The
  reference parameter \<^verbatim>\<open>events\<close> is always assigned, so it is only returned.
\<close>

definition pastHour_step :: "32 word list \<Rightarrow> nat \<Rightarrow> bool \<times> 32 word \<Rightarrow> bool \<times> 32 word" where
  "pastHour_step h i acc =
     (if h ! i \<noteq> - 1 then (True, snd acc + h ! i) else acc)"

definition pastHour :: "config \<Rightarrow> nvLightning_t \<Rightarrow> bool \<times> 32 word \<times> nvLightning_t" where
  "pastHour cfg s =
     (let (res, sum) = fold (pastHour_step (hist s)) [0..<LIGHTNING_HIST_SIZE cfg] (False, 0)
      in (res, sum, s))"

text \<open>
  A clock for \<open>tm_min\<close>: local time at a fixed offset of \<open>off\<close> seconds from UTC, and the
  configuration of the specification's scenario (six buckets of ten minutes) on it.
\<close>

definition fixed_offset_min :: "int \<Rightarrow> int \<Rightarrow> nat" where
  "fixed_offset_min off t = nat (((t + off) div 60) mod 60)"

definition cfg_6x10 :: "16 word \<Rightarrow> config" where
  "cfg_6x10 fill =
     \<lparr>LIGHTNING_HIST_SIZE = 6, LIGHTNING_UPD_RATE = 10, hist_init_default = fill,
      tm_min = fixed_offset_min 0\<rparr>"

text \<open>
  Two records used as concrete inputs: one after a baseline of 5 was taken, and the one
  that \<open>update\<close> makes of it for a report of count 8 and distance 3 at time 600.
\<close>

definition nv_baseline5 :: nvLightning_t where
  "nv_baseline5 =
     \<lparr>lastUpdate = 0, prevCount = 5, events = - 1, distance = 0, timestamp = 0,
      hist = [7, 7, 7, 7, 7, 7]\<rparr>"

definition nv_strike3 :: nvLightning_t where
  "nv_strike3 =
     \<lparr>lastUpdate = 0, prevCount = 8, events = 3, distance = 3, timestamp = 600,
      hist = [7, 0, 7, 7, 7, 7]\<rparr>"


text \<open>A record without an event and without a valid bucket.\<close>

definition nv_all_invalid :: nvLightning_t where
  "nv_all_invalid =
     \<lparr>lastUpdate = 0, prevCount = 5, events = - 1, distance = 0, timestamp = 0,
      hist = [- 1, - 1, - 1, - 1, - 1, - 1]\<rparr>"

text \<open>Five buckets of ten minutes, which leave the last ten minutes of the hour uncovered.\<close>

definition cfg_5x10 :: config where
  "cfg_5x10 =
     \<lparr>LIGHTNING_HIST_SIZE = 5, LIGHTNING_UPD_RATE = 10, hist_init_default = 0,
      tm_min = fixed_offset_min 0\<rparr>"

definition nv_five_buckets :: nvLightning_t where
  "nv_five_buckets =
     \<lparr>lastUpdate = 3000, prevCount = 5, events = - 1, distance = 0, timestamp = 0,
      hist = [7, 7, 7, 7, 7]\<rparr>"

text \<open>
  The buckets of the boundary times \<open>L + k\<close> periods for \<open>1 \<le> k < n\<close>: the times that lie
  strictly between a last update at \<open>L\<close> and a timestamp \<open>n\<close> periods later.
\<close>

definition gap_buckets :: "config \<Rightarrow> int \<Rightarrow> nat \<Rightarrow> nat set" where
  "gap_buckets cfg L n =
     (\<lambda>k. hist_idx cfg (L + int (k * (LIGHTNING_UPD_RATE cfg * 60)))) ` {1..<n}"

text \<open>
  The buckets that the loop of lines 227 to 232 visits when it runs from a last update at
  \<open>L\<close> to a timestamp \<open>t\<close>: those of the boundary times \<open>L + k\<close> periods, \<open>k \<ge> 1\<close>, that
  lie before \<open>t\<close>.
\<close>

definition walked_buckets :: "config \<Rightarrow> int \<Rightarrow> int \<Rightarrow> nat set" where
  "walked_buckets cfg L t =
     {i. \<exists>k\<ge>1. L + int (k * (LIGHTNING_UPD_RATE cfg * 60)) < t
              \<and> hist_idx cfg (L + int (k * (LIGHTNING_UPD_RATE cfg * 60))) = i}"

text \<open>A history whose valid buckets add up to more than an \<^verbatim>\<open>int\<close> holds.\<close>

definition nv_overflow :: nvLightning_t where
  "nv_overflow =
     \<lparr>lastUpdate = 0, prevCount = 5, events = - 1, distance = 0, timestamp = 0,
      hist = [2147483647, 1, - 1, - 1, - 1, - 1]\<rparr>"

text \<open>
  The records after two consecutive updates of \<open>nv_baseline5\<close>, at times 6000 and 7200
  with counts 6 and 7.
\<close>

definition nv_pair_first :: nvLightning_t where
  "nv_pair_first =
     \<lparr>lastUpdate = 0, prevCount = 6, events = 1, distance = 1, timestamp = 6000,
      hist = [- 1, - 1, - 1, - 1, - 1, - 1]\<rparr>"

definition nv_pair_second :: nvLightning_t where
  "nv_pair_second =
     \<lparr>lastUpdate = 0, prevCount = 7, events = 1, distance = 2, timestamp = 7200,
      hist = [- 1, - 1, - 1, - 1, - 1, - 1]\<rparr>"

section \<open>Machine integers\<close>

lemma sint_narrow: "sint (ucast (w :: 32 word) :: 16 word) = signed_take_bit 15 (sint w)"
proof -
  have "sint (ucast w :: 16 word) = signed_take_bit 15 (take_bit 16 (uint w))"
    by (simp add: sint_uint unsigned_ucast_eq)
  also have "\<dots> = signed_take_bit 15 (uint w)"
    by (simp add: signed_take_bit_take_bit)
  also have "\<dots> = signed_take_bit 15 (sint w)"
    by (simp add: sint_uint)
  finally show ?thesis .
qed

lemma sint_narrow_id:
  "- 32768 \<le> sint (w :: 32 word) \<Longrightarrow> sint w < 32768 \<Longrightarrow> sint (ucast w :: 16 word) = sint w"
  by (simp add: sint_narrow signed_take_bit_int_eq_self)

lemma sint_promote: "sint (scast (p :: 16 word) :: 32 word) = sint p"
  by (simp add: sint_up_scast is_up)

lemma sint_minus_one_16: "sint (p :: 16 word) = - 1 \<longleftrightarrow> p = - 1"
  using signed_word_eqI [of p "- 1"] by auto

lemma sint_diff_promote:
  "sint (c - scast (p :: 16 word) :: 32 word) = signed_take_bit 31 (sint c - sint p)"
  by (simp add: sint_word_diff sint_promote)

lemma sint16_range: "- 32768 \<le> sint (p :: 16 word)" "sint (p :: 16 word) < 32768"
  using sint_ge [of p] sint_lt [of p] by simp_all

lemma sint32_range: "- 2147483648 \<le> sint (p :: 32 word)" "sint (p :: 32 word) < 2147483648"
  using sint_ge [of p] sint_lt [of p] by simp_all

text \<open>A \<^verbatim>\<open>uint16_t\<close> stored into an \<^verbatim>\<open>int\<close> keeps its value, which is never \<open>-1\<close>.\<close>

lemma sint_fill: "sint (ucast (c :: 16 word) :: 32 word) = uint c"
proof -
  have "uint c < 65536" using uint_lt2p [of c] by simp
  moreover have "0 \<le> uint c" by simp
  ultimately have "- 2147483648 \<le> uint c" "uint c < 2147483648" by linarith+
  then show ?thesis
    by (simp add: signed_ucast_eq signed_take_bit_int_eq_self)
qed

lemma fill_not_minus_one: "(ucast (c :: 16 word) :: 32 word) \<noteq> - 1"
proof
  assume "(ucast c :: 32 word) = - 1"
  then have "sint (ucast c :: 32 word) = - 1" by simp
  then show False using uint_ge_0 [of c] by (simp add: sint_fill)
qed

lemma scast_narrow_id:
  assumes "- 32768 \<le> sint (c :: 32 word)" and "sint c < 32768"
  shows "scast (ucast c :: 16 word) = c"
proof (rule signed_word_eqI)
  show "sint (scast (ucast c :: 16 word) :: 32 word) = sint c"
    using assms by (simp add: sint_promote sint_narrow_id)
qed

lemma signed_take_bit_add_right:
  "signed_take_bit n (a + signed_take_bit n b) = signed_take_bit n (a + b)" for a b :: int
proof -
  have "signed_take_bit n (a + signed_take_bit n b)
      = signed_take_bit n (signed_take_bit n a + signed_take_bit n (signed_take_bit n b))"
    by (rule signed_take_bit_add [symmetric])
  also have "\<dots> = signed_take_bit n (signed_take_bit n a + signed_take_bit n b)"
    by simp
  also have "\<dots> = signed_take_bit n (a + b)"
    by (rule signed_take_bit_add)
  finally show ?thesis .
qed

lemma sint_sum_list:
  "sint (sum_list ws :: 32 word) = signed_take_bit 31 (\<Sum>w\<leftarrow>ws. sint w)"
proof (induction ws)
  case Nil
  then show ?case by simp
next
  case (Cons w ws)
  have "sint (w + sum_list ws) = signed_take_bit 31 (sint w + sint (sum_list ws))"
    by (simp add: sint_word_ariths)
  also have "\<dots> = signed_take_bit 31 (sint w + (\<Sum>w\<leftarrow>ws. sint w))"
    by (simp add: Cons.IH signed_take_bit_add_right)
  finally show ?case by simp
qed

section \<open>The history array\<close>

lemma fold_fill:
  "n \<le> length h \<Longrightarrow>
   fold (\<lambda>i h. h[i := c]) [0..<n] h = replicate n c @ drop n h"
proof (induction n)
  case 0
  then show ?case by simp
next
  case (Suc n)
  then have "n < length h" by simp
  then have "drop n h = h ! n # drop (Suc n) h"
    by (simp add: Cons_nth_drop_Suc)
  with Suc show ?case
    by (simp add: list_update_append replicate_append_same)
qed

lemma hist_init_hist:
  "length (hist s) = LIGHTNING_HIST_SIZE cfg \<Longrightarrow>
   hist (hist_init cfg c s) = replicate (LIGHTNING_HIST_SIZE cfg) (ucast c)"
  by (simp add: hist_init_def fold_fill)

lemma hist_init_other [simp]:
  "lastUpdate (hist_init cfg c s) = lastUpdate s"
  "prevCount (hist_init cfg c s) = prevCount s"
  "events (hist_init cfg c s) = events s"
  "distance (hist_init cfg c s) = distance s"
  "timestamp (hist_init cfg c s) = timestamp s"
  by (simp_all add: hist_init_def)

lemma mark_invalid_length:
  "mark_invalid cfg ts t h = Inr h' \<Longrightarrow> length h' = length h"
proof (induction cfg ts t h rule: mark_invalid.induct)
  case (1 cfg ts t h)
  then show ?case
    by (subst (asm) (2) mark_invalid.simps) (auto split: if_splits)
qed

lemma mark_invalid_cases:
  "mark_invalid cfg ts t h = Inr h' \<Longrightarrow> h' ! i = - 1 \<or> h' ! i = h ! i"
proof (induction cfg ts t h rule: mark_invalid.induct)
  case (1 cfg ts t h)
  show ?case
  proof (cases "ts < t")
    case False
    with "1.prems" show ?thesis by (simp add: mark_invalid.simps)
  next
    case True
    with "1.prems" have rate: "LIGHTNING_UPD_RATE cfg \<noteq> 0"
      and idx: "hist_idx cfg ts < LIGHTNING_HIST_SIZE cfg"
      and rest: "mark_invalid cfg (ts + int (LIGHTNING_UPD_RATE cfg * 60)) t
                   (h[hist_idx cfg ts := - 1]) = Inr h'"
      by (simp_all add: mark_invalid.simps [of cfg ts] split: if_splits)
    from "1.IH" [OF True rate idx rest]
    show ?thesis
      by (cases "i = hist_idx cfg ts"; cases "i < length h") (auto simp: list_update_beyond)
  qed
qed

text \<open>
  When the buckets cover the hour (\<open>60 \<le> HIST_SIZE * UPD_RATE\<close>) and \<open>tm_min\<close> is a
  minute, every index is inside the array, the loop ends without an error and so does
  \<open>update\<close>.
\<close>

lemma hist_idx_bound:
  assumes "60 \<le> LIGHTNING_HIST_SIZE cfg * LIGHTNING_UPD_RATE cfg" and "\<forall>t. tm_min cfg t < 60"
  shows "hist_idx cfg t < LIGHTNING_HIST_SIZE cfg"
proof -
  from assms have "tm_min cfg t < LIGHTNING_HIST_SIZE cfg * LIGHTNING_UPD_RATE cfg"
    by (meson less_le_trans)
  then show ?thesis
    unfolding hist_idx_def by (rule less_mult_imp_div_less)
qed

lemma upd_rate_pos:
  "60 \<le> LIGHTNING_HIST_SIZE cfg * LIGHTNING_UPD_RATE cfg \<Longrightarrow> 0 < LIGHTNING_UPD_RATE cfg"
  by (cases "LIGHTNING_UPD_RATE cfg") simp_all

lemma mark_invalid_total:
  assumes "0 < LIGHTNING_UPD_RATE cfg" and "\<forall>ts. hist_idx cfg ts < LIGHTNING_HIST_SIZE cfg"
  shows "\<exists>h'. mark_invalid cfg ts t h = Inr h'"
  using assms
proof (induction cfg ts t h rule: mark_invalid.induct)
  case (1 cfg ts t h)
  show ?case
  proof (cases "ts < t")
    case False
    then show ?thesis by (simp add: mark_invalid.simps)
  next
    case True
    with 1 show ?thesis
      by (subst mark_invalid.simps) simp
  qed
qed

lemma update_total:
  assumes "60 \<le> LIGHTNING_HIST_SIZE cfg * LIGHTNING_UPD_RATE cfg" and "\<forall>t. tm_min cfg t < 60"
  shows "\<exists>s'. update cfg s t count dist startup = Inr s'"
proof -
  have idx: "\<forall>ts. hist_idx cfg ts < LIGHTNING_HIST_SIZE cfg"
    using assms by (simp add: hist_idx_bound)
  have rate: "0 < LIGHTNING_UPD_RATE cfg"
    using assms(1) by (rule upd_rate_pos)
  have ne: "mark_invalid cfg ts t h \<noteq> Inl e" for ts h e
    using mark_invalid_total [OF rate idx, of ts t h] by auto
  from idx rate ne show ?thesis
    unfolding update_def Let_def by (simp split: sum.splits)
qed

lemma fixed_offset_min_less: "fixed_offset_min off t < 60"
  by (simp add: fixed_offset_min_def)

text \<open>What \<open>update\<close> does to the history on its two paths through the time accounting.\<close>

lemma update_after_window:
  assumes run: "update cfg s t count dist startup = Inr s'"
    and len: "length (hist s) = LIGHTNING_HIST_SIZE cfg"
    and base: "prevCount s \<noteq> - 1" "\<not> sint count < sint (prevCount s)"
    and late: "int (LIGHTNING_HIST_SIZE cfg * LIGHTNING_UPD_RATE cfg * 60) \<le> t - lastUpdate s"
  shows "hist_idx cfg t < LIGHTNING_HIST_SIZE cfg
       \<and> mark_invalid cfg (lastUpdate s + int (LIGHTNING_UPD_RATE cfg * 60)) t
            ((replicate (LIGHTNING_HIST_SIZE cfg) (ucast (hist_init_default cfg)))
               [hist_idx cfg t := count - scast (prevCount s')]) = Inr (hist s')"
proof -
  from late have "\<not> t - lastUpdate s < 0" by linarith
  with assms show ?thesis
    by (auto simp: update_def Let_def hist_init_hist split: if_splits sum.splits)
qed

lemma update_length:
  assumes "update cfg s t count dist startup = Inr s'"
    and "length (hist s) = LIGHTNING_HIST_SIZE cfg"
  shows "length (hist s') = LIGHTNING_HIST_SIZE cfg"
  using assms
  by (auto simp: update_def Let_def hist_init_hist split: if_splits sum.splits
      dest!: mark_invalid_length)

lemma update_lastUpdate:
  "update cfg s t count dist startup = Inr s' \<Longrightarrow> lastUpdate s' = lastUpdate s"
  by (auto simp: update_def Let_def split: if_splits sum.splits)

lemma update_strike:
  assumes run: "update cfg s t count dist startup = Inr s'"
    and base: "prevCount s \<noteq> - 1" "sint (prevCount s) < sint count"
    and early: "0 \<le> t - lastUpdate s"
      "t - lastUpdate s < int (LIGHTNING_HIST_SIZE cfg * LIGHTNING_UPD_RATE cfg * 60)"
  shows "events s' = ucast (count - scast (prevCount s)) \<and> distance s' = dist
       \<and> timestamp s' = t \<and> prevCount s' = ucast count
       \<and> hist_idx cfg t < LIGHTNING_HIST_SIZE cfg
       \<and> (\<exists>ts. mark_invalid cfg ts t
              ((hist s)[hist_idx cfg t := count - scast (ucast count :: 16 word)]) = Inr (hist s'))"
proof -
  from early have "\<not> t - lastUpdate s < 0"
    "\<not> int (LIGHTNING_HIST_SIZE cfg * LIGHTNING_UPD_RATE cfg * 60) \<le> t - lastUpdate s"
    by linarith+
  with run base show ?thesis
    by (auto simp: update_def Let_def split: if_splits sum.splits)
qed

text \<open>The loop of \<open>pastHour\<close> over the indices is a fold over the array.\<close>

lemma pastHour_loop_list:
  "fold (pastHour_step h) [0..<length h] acc
     = fold (\<lambda>x acc. if x \<noteq> - 1 then (True, snd acc + x) else acc) h acc"
proof -
  have "pastHour_step h = (\<lambda>x acc. if x \<noteq> - 1 then (True, snd acc + x) else acc) \<circ> (!) h"
    by (auto simp: pastHour_step_def fun_eq_iff)
  then have "fold (pastHour_step h) [0..<length h] acc
     = fold (\<lambda>x acc. if x \<noteq> - 1 then (True, snd acc + x) else acc) (map ((!) h) [0..<length h]) acc"
    by (simp only: fold_map)
  then show ?thesis by (simp only: map_nth)
qed

lemma pastHour_loop_sum:
  "fold (\<lambda>x acc. if x \<noteq> - 1 then (True, snd acc + x) else acc) h (b, a)
     = (b \<or> (\<exists>x\<in>set h. x \<noteq> - 1), a + sum_list (filter (\<lambda>x. x \<noteq> - 1) h))"
  by (induction h arbitrary: a b) (auto simp: add.assoc)

text \<open>
  The loop marks exactly the buckets of the times \<open>ts\<close>, \<open>ts + period\<close>, \<open>\<dots>\<close> that lie
  before \<open>t\<close>.
\<close>

lemma mark_invalid_nth:
  assumes "mark_invalid cfg ts t h = Inr h'" and "i < length h"
  shows "h' ! i =
           (if \<exists>j. ts + int (j * (LIGHTNING_UPD_RATE cfg * 60)) < t
                   \<and> hist_idx cfg (ts + int (j * (LIGHTNING_UPD_RATE cfg * 60))) = i
            then - 1 else h ! i)"
  using assms
proof (induction cfg ts t h rule: mark_invalid.induct)
  case (1 cfg ts t h)
  let ?p = "LIGHTNING_UPD_RATE cfg * 60"
  show ?case
  proof (cases "ts < t")
    case False
    then have "\<not> ts + int (j * ?p) < t" for j
      using of_nat_0_le_iff [of "j * ?p", where ?'a = int] by linarith
    with False "1.prems" show ?thesis by (simp add: mark_invalid.simps)
  next
    case True
    with "1.prems" have rate: "LIGHTNING_UPD_RATE cfg \<noteq> 0"
      and idx: "hist_idx cfg ts < LIGHTNING_HIST_SIZE cfg"
      and rest: "mark_invalid cfg (ts + int ?p) t (h[hist_idx cfg ts := - 1]) = Inr h'"
      by (simp_all add: mark_invalid.simps [of cfg ts] split: if_splits)
    have step: "(\<exists>j. ts + int (j * ?p) < t \<and> hist_idx cfg (ts + int (j * ?p)) = i)
        \<longleftrightarrow> hist_idx cfg ts = i
            \<or> (\<exists>j. ts + int ?p + int (j * ?p) < t \<and> hist_idx cfg (ts + int ?p + int (j * ?p)) = i)"
      (is "?L \<longleftrightarrow> ?R")
    proof
      assume ?L
      then obtain j where j: "ts + int (j * ?p) < t" "hist_idx cfg (ts + int (j * ?p)) = i"
        by blast
      show ?R
      proof (cases j)
        case 0
        with j show ?thesis by simp
      next
        case (Suc j')
        have "ts + int (Suc j' * ?p) = ts + int ?p + int (j' * ?p)" by simp
        with j Suc show ?thesis by metis
      qed
    next
      assume ?R
      then show ?L
      proof
        assume "hist_idx cfg ts = i"
        with True have "ts + int (0 * ?p) < t \<and> hist_idx cfg (ts + int (0 * ?p)) = i" by simp
        then show ?L by blast
      next
        assume "\<exists>j. ts + int ?p + int (j * ?p) < t \<and> hist_idx cfg (ts + int ?p + int (j * ?p)) = i"
        then obtain j where j: "ts + int ?p + int (j * ?p) < t"
          "hist_idx cfg (ts + int ?p + int (j * ?p)) = i" by blast
        have "ts + int (Suc j * ?p) = ts + int ?p + int (j * ?p)" by simp
        with j show ?L by metis
      qed
    qed
    from "1.prems" have len: "i < length (h[hist_idx cfg ts := - 1])" by simp
    define later where "later \<longleftrightarrow>
      (\<exists>j. ts + int ?p + int (j * ?p) < t \<and> hist_idx cfg (ts + int ?p + int (j * ?p)) = i)"
    from "1.IH" [OF True rate idx rest len]
    have "h' ! i = (if later then - 1 else h[hist_idx cfg ts := - 1] ! i)"
      unfolding later_def .
    moreover from step
    have "(\<exists>j. ts + int (j * ?p) < t \<and> hist_idx cfg (ts + int (j * ?p)) = i)
        \<longleftrightarrow> hist_idx cfg ts = i \<or> later"
      unfolding later_def .
    ultimately show ?thesis
      using "1.prems"(2) by (cases "hist_idx cfg ts = i") simp_all
  qed
qed

text \<open>
  On a clock at a fixed offset and with buckets that partition the hour
  (\<open>HIST_SIZE * UPD_RATE = 60\<close>), a step of one period moves to the next bucket, cyclically.
\<close>

lemma bucket_of_sum:
  fixes M k U H :: nat
  assumes "0 < U"
  shows "((M + k * U) mod (U * H)) div U = (M div U + k) mod H"
proof -
  have "(M + k * U) mod (U * H) = U * ((M + k * U) div U mod H) + (M + k * U) mod U"
    by (rule mod_mult2_eq)
  then have "((M + k * U) mod (U * H)) div U = (M + k * U) div U mod H"
    using assms by simp
  also have "(M + k * U) div U = M div U + k"
    using assms by simp
  finally show ?thesis .
qed

lemma fixed_offset_min_shift:
  "fixed_offset_min off (L + int (k * (U * 60))) = (fixed_offset_min off L + k * U) mod 60"
proof -
  define m0 where "m0 = (L + off) div 60"
  define M where "M = nat (m0 mod 60)"
  have M: "m0 mod 60 = int M" by (simp add: M_def)
  have "L + int (k * (U * 60)) + off = (L + off) + int (k * U) * 60" by simp
  then have "(L + int (k * (U * 60)) + off) div 60 = m0 + int (k * U)"
    by (simp only: m0_def div_mult_self3)
  then have "fixed_offset_min off (L + int (k * (U * 60))) = nat ((m0 + int (k * U)) mod 60)"
    by (simp only: fixed_offset_min_def)
  also have "(m0 + int (k * U)) mod 60 = (m0 mod 60 + int (k * U)) mod 60"
    by (simp only: mod_add_left_eq)
  also have "\<dots> = int ((M + k * U) mod 60)"
    by (simp only: M zmod_int of_nat_add of_nat_numeral)
  also have "nat (int ((M + k * U) mod 60)) = (M + k * U) mod 60"
    by (rule nat_int)
  finally show ?thesis by (simp only: fixed_offset_min_def m0_def M_def)
qed

lemma hist_idx_shift:
  assumes cover: "LIGHTNING_HIST_SIZE cfg * LIGHTNING_UPD_RATE cfg = 60"
    and clock: "tm_min cfg = fixed_offset_min off"
  shows "hist_idx cfg (L + int (k * (LIGHTNING_UPD_RATE cfg * 60)))
           = (hist_idx cfg L + k) mod LIGHTNING_HIST_SIZE cfg"
proof -
  from cover have rate: "0 < LIGHTNING_UPD_RATE cfg"
    by (cases "LIGHTNING_UPD_RATE cfg") simp_all
  from cover have sixty: "60 = LIGHTNING_UPD_RATE cfg * LIGHTNING_HIST_SIZE cfg"
    by (simp add: mult.commute)
  have "hist_idx cfg (L + int (k * (LIGHTNING_UPD_RATE cfg * 60)))
      = ((fixed_offset_min off L + k * LIGHTNING_UPD_RATE cfg)
           mod (LIGHTNING_UPD_RATE cfg * LIGHTNING_HIST_SIZE cfg)) div LIGHTNING_UPD_RATE cfg"
    unfolding hist_idx_def clock fixed_offset_min_shift by (simp only: sixty [symmetric])
  also have "\<dots> = (fixed_offset_min off L div LIGHTNING_UPD_RATE cfg + k) mod LIGHTNING_HIST_SIZE cfg"
    using rate by (rule bucket_of_sum)
  finally show ?thesis by (simp add: hist_idx_def clock)
qed

lemma shift_mod_inj:
  fixes b H j k :: nat
  assumes "(b + j) mod H = (b + k) mod H" and "j < H" and "k < H"
  shows "j = k"
proof -
  have aux: "j' = k'" if le: "j' \<le> k'" and lt: "k' < H"
    and eq: "(b + j') mod H = (b + k') mod H" for j' k'
  proof -
    from le have "b + j' \<le> b + k'" by (rule add_left_mono)
    moreover from eq have "(b + k') mod H = (b + j') mod H" by (rule sym)
    ultimately have "H dvd (b + k') - (b + j')"
      by (simp only: mod_eq_dvd_iff_nat)
    moreover have "(b + k') - (b + j') = k' - j'" by arith
    ultimately have dvd: "H dvd k' - j'" by (simp only:)
    from lt have small: "k' - j' < H" by (rule less_imp_diff_less)
    have "k' - j' = 0"
    proof (rule ccontr)
      assume "k' - j' \<noteq> 0"
      then have "0 < k' - j'" by (rule neq0_conv [THEN iffD1])
      from nat_dvd_not_less [OF this small] dvd show False by (rule notE)
    qed
    with le show ?thesis by arith
  qed
  show ?thesis
  proof (cases "j \<le> k")
    case True
    from aux [OF True assms(3) assms(1)] show ?thesis .
  next
    case False
    then have "k \<le> j" by arith
    from aux [OF this assms(2) assms(1) [symmetric]] show ?thesis by (rule sym)
  qed
qed

lemma update_in_window:
  assumes run: "update cfg s t count dist startup = Inr s'"
    and base: "prevCount s \<noteq> - 1" "\<not> sint count < sint (prevCount s)"
    and early: "0 \<le> t - lastUpdate s"
      "t - lastUpdate s < int (LIGHTNING_HIST_SIZE cfg * LIGHTNING_UPD_RATE cfg * 60)"
  shows "hist_idx cfg t < LIGHTNING_HIST_SIZE cfg
       \<and> mark_invalid cfg (lastUpdate s + int (LIGHTNING_UPD_RATE cfg * 60)) t
              ((hist s)[hist_idx cfg t := count - scast (prevCount s')]) = Inr (hist s')"
proof -
  from early have "\<not> t - lastUpdate s < 0"
    "\<not> int (LIGHTNING_HIST_SIZE cfg * LIGHTNING_UPD_RATE cfg * 60) \<le> t - lastUpdate s"
    by linarith+
  with run base show ?thesis
    by (auto simp: update_def Let_def split: if_splits sum.splits)
qed

lemma gap_buckets_cyclic:
  assumes "LIGHTNING_HIST_SIZE cfg * LIGHTNING_UPD_RATE cfg = 60"
    and "tm_min cfg = fixed_offset_min off"
  shows "gap_buckets cfg L n = (\<lambda>k. (hist_idx cfg L + k) mod LIGHTNING_HIST_SIZE cfg) ` {1..<n}"
  unfolding gap_buckets_def by (simp only: hist_idx_shift [OF assms])

lemma gap_buckets_card:
  assumes "LIGHTNING_HIST_SIZE cfg * LIGHTNING_UPD_RATE cfg = 60"
    and "tm_min cfg = fixed_offset_min off"
    and "n < LIGHTNING_HIST_SIZE cfg"
  shows "card (gap_buckets cfg L n) = n - 1"
proof -
  have "inj_on (\<lambda>k. (hist_idx cfg L + k) mod LIGHTNING_HIST_SIZE cfg) {1..<n}"
  proof (rule inj_onI)
    fix j k
    assume "j \<in> {1..<n}" "k \<in> {1..<n}"
      and eq: "(hist_idx cfg L + j) mod LIGHTNING_HIST_SIZE cfg
             = (hist_idx cfg L + k) mod LIGHTNING_HIST_SIZE cfg"
    with assms(3) have "j < LIGHTNING_HIST_SIZE cfg" "k < LIGHTNING_HIST_SIZE cfg" by simp_all
    with eq show "j = k" by (rule shift_mod_inj)
  qed
  then have "card (gap_buckets cfg L n) = card {1..<n}"
    unfolding gap_buckets_cyclic [OF assms(1,2)] by (rule card_image)
  then show ?thesis by simp
qed

lemma current_bucket_not_in_gap:
  assumes "LIGHTNING_HIST_SIZE cfg * LIGHTNING_UPD_RATE cfg = 60"
    and "tm_min cfg = fixed_offset_min off"
    and "n < LIGHTNING_HIST_SIZE cfg"
  shows "hist_idx cfg (L + int (n * (LIGHTNING_UPD_RATE cfg * 60))) \<notin> gap_buckets cfg L n"
proof
  assume "hist_idx cfg (L + int (n * (LIGHTNING_UPD_RATE cfg * 60))) \<in> gap_buckets cfg L n"
  then obtain k where k: "k \<in> {1..<n}"
    and eq: "(hist_idx cfg L + n) mod LIGHTNING_HIST_SIZE cfg
           = (hist_idx cfg L + k) mod LIGHTNING_HIST_SIZE cfg"
    unfolding gap_buckets_cyclic [OF assms(1,2)] hist_idx_shift [OF assms(1,2)] by blast
  from k assms(3) have "k < LIGHTNING_HIST_SIZE cfg" by simp
  with eq assms(3) have "n = k" by (rule shift_mod_inj)
  with k show False by simp
qed

lemma gap_buckets_walk:
  assumes "0 < LIGHTNING_UPD_RATE cfg"
  shows "(\<exists>j. L + int (LIGHTNING_UPD_RATE cfg * 60) + int (j * (LIGHTNING_UPD_RATE cfg * 60))
               < L + int (n * (LIGHTNING_UPD_RATE cfg * 60))
            \<and> hist_idx cfg (L + int (LIGHTNING_UPD_RATE cfg * 60)
                               + int (j * (LIGHTNING_UPD_RATE cfg * 60))) = i)
         \<longleftrightarrow> i \<in> gap_buckets cfg L n"
  (is "?L \<longleftrightarrow> ?R")
proof
  let ?p = "LIGHTNING_UPD_RATE cfg * 60"
  have shift: "L + int ?p + int (j * ?p) = L + int (Suc j * ?p)" for j by simp
  have less: "L + int (Suc j * ?p) < L + int (n * ?p) \<longleftrightarrow> Suc j < n" for j
  proof -
    have "L + int (Suc j * ?p) < L + int (n * ?p) \<longleftrightarrow> Suc j * ?p < n * ?p"
      by (simp only: add_less_cancel_left of_nat_less_iff)
    also from assms have "0 < ?p" by simp
    then have "Suc j * ?p < n * ?p \<longleftrightarrow> Suc j < n"
      by (simp only: mult_less_cancel2 simp_thms)
    finally show ?thesis .
  qed
  {
    assume ?L
    then obtain j where "Suc j < n" "hist_idx cfg (L + int (Suc j * ?p)) = i"
      unfolding shift less by blast
    then have "Suc j \<in> {1..<n}" "hist_idx cfg (L + int (Suc j * ?p)) = i" by simp_all
    then show ?R unfolding gap_buckets_def by blast
  }
  {
    assume ?R
    then obtain k where k: "k \<in> {1..<n}" "hist_idx cfg (L + int (k * ?p)) = i"
      unfolding gap_buckets_def by blast
    then obtain j where "k = Suc j" by (cases k) simp_all
    with k have "Suc j < n" "hist_idx cfg (L + int (Suc j * ?p)) = i" by simp_all
    then show ?L unfolding shift less by blast
  }
qed

text \<open>
  The walk in terms of \<open>walked_buckets\<close>, and what it covers once a whole window has
  passed: every bucket but, at most, the one of the timestamp.
\<close>

lemma walked_buckets_walk:
  "(\<exists>j. L + int (LIGHTNING_UPD_RATE cfg * 60) + int (j * (LIGHTNING_UPD_RATE cfg * 60)) < t
          \<and> hist_idx cfg (L + int (LIGHTNING_UPD_RATE cfg * 60)
                             + int (j * (LIGHTNING_UPD_RATE cfg * 60))) = i)
     \<longleftrightarrow> i \<in> walked_buckets cfg L t"
  (is "?L \<longleftrightarrow> ?R")
proof
  let ?p = "LIGHTNING_UPD_RATE cfg * 60"
  have shift: "L + int ?p + int (j * ?p) = L + int (Suc j * ?p)" for j by simp
  {
    assume ?L
    then obtain j where "L + int (Suc j * ?p) < t" "hist_idx cfg (L + int (Suc j * ?p)) = i"
      unfolding shift by blast
    moreover have "1 \<le> Suc j" by simp
    ultimately show ?R unfolding walked_buckets_def by blast
  }
  {
    assume ?R
    then obtain k where k: "1 \<le> k" "L + int (k * ?p) < t" "hist_idx cfg (L + int (k * ?p)) = i"
      unfolding walked_buckets_def by blast
    then obtain j where "k = Suc j" by (cases k) simp_all
    with k have "L + int (Suc j * ?p) < t" "hist_idx cfg (L + int (Suc j * ?p)) = i" by simp_all
    then show ?L unfolding shift by blast
  }
qed

lemma cyclic_reach:
  fixes b H i :: nat
  assumes "b < H" and "i < H"
  shows "\<exists>k. 1 \<le> k \<and> k \<le> H \<and> (b + k) mod H = i \<and> (k = H \<longrightarrow> i = b)"
proof -
  consider "b < i" | "i < b" | "i = b" by arith
  then show ?thesis
  proof cases
    case 1
    with assms have "1 \<le> i - b" "i - b \<le> H" "(b + (i - b)) mod H = i" "i - b \<noteq> H"
      by simp_all
    then show ?thesis by blast
  next
    case 2
    with assms have "b + (i + H - b) = i + H" by arith
    then have "(b + (i + H - b)) mod H = i" using assms by simp
    moreover from 2 assms have "1 \<le> i + H - b" "i + H - b \<le> H" "i + H - b \<noteq> H" by arith+
    ultimately show ?thesis by blast
  next
    case 3
    with assms have "(b + H) mod H = i" by simp
    moreover from assms have "1 \<le> H" by arith
    ultimately show ?thesis using 3 by blast
  qed
qed

lemma walked_after_window:
  assumes cover: "LIGHTNING_HIST_SIZE cfg * LIGHTNING_UPD_RATE cfg = 60"
    and clock: "tm_min cfg = fixed_offset_min off"
    and late: "int (LIGHTNING_HIST_SIZE cfg * LIGHTNING_UPD_RATE cfg * 60) \<le> t - L"
    and i: "i < LIGHTNING_HIST_SIZE cfg"
    and other: "i \<noteq> hist_idx cfg t
              \<or> int (LIGHTNING_HIST_SIZE cfg * LIGHTNING_UPD_RATE cfg * 60) < t - L"
  shows "i \<in> walked_buckets cfg L t"
proof -
  let ?H = "LIGHTNING_HIST_SIZE cfg" and ?U = "LIGHTNING_UPD_RATE cfg"
  let ?p = "?U * 60"
  from cover have cover': "60 \<le> ?H * ?U" by simp
  then have rate: "0 < ?U" by (rule upd_rate_pos)
  have minute: "\<forall>t. tm_min cfg t < 60"
    by (simp add: clock fixed_offset_min_less)
  have b: "hist_idx cfg L < ?H"
    using cover' minute by (rule hist_idx_bound)
  from cyclic_reach [OF b i] obtain k
    where k: "1 \<le> k" "k \<le> ?H" "(hist_idx cfg L + k) mod ?H = i" "k = ?H \<longrightarrow> i = hist_idx cfg L"
    by blast
  have window: "int (?H * ?U * 60) = int (?H * ?p)" by (simp add: mult.assoc)
  have bucket: "hist_idx cfg (L + int (k * ?p)) = i"
    using k(3) by (simp only: hist_idx_shift [OF cover clock])
  have "L + int (k * ?p) < t"
  proof (cases "k = ?H")
    case False
    with k(2) have "k < ?H" by simp
    with rate have "k * ?p < ?H * ?p" by simp
    then have "int (k * ?p) < int (?H * ?p)" by (simp only: of_nat_less_iff)
    with late window show ?thesis by linarith
  next
    case True
    have "int (?H * ?p) < t - L"
    proof (rule ccontr)
      assume "\<not> int (?H * ?p) < t - L"
      with late window have t: "t = L + int (?H * ?p)" by linarith
      have "hist_idx cfg t = (hist_idx cfg L + ?H) mod ?H"
        unfolding t by (rule hist_idx_shift [OF cover clock])
      with b have "hist_idx cfg t = hist_idx cfg L" by simp
      with True k(4) have "i = hist_idx cfg t" by simp
      with other \<open>\<not> int (?H * ?p) < t - L\<close> window show False by simp
    qed
    with True show ?thesis by simp
  qed
  with k(1) bucket show ?thesis unfolding walked_buckets_def by blast
qed

lemmas run_6x10 =
  update_def cfg_6x10_def hist_idx_def fixed_offset_min_def mark_invalid.simps
  hist_init_def Let_def upt_conv_Cons

lemma replicate_six: "replicate 6 x = [x, x, x, x, x, x]"
  by (simp add: eval_nat_numeral)

lemma nvLightning_6x10:
  "nvLightning (cfg_6x10 fill) =
     \<lparr>lastUpdate = 0, prevCount = - 1, events = 0, distance = 0, timestamp = 0,
      hist = [0, 0, 0, 0, 0, 0]\<rparr>"
  by (simp add: nvLightning_def cfg_6x10_def replicate_six)

section \<open>The time of the last update\<close>

text \<open>
  Claim C1. A call of \<open>update\<close> that reaches its end should leave \<open>lastUpdate\<close> equal to
  the call's timestamp. The source never assigns \<open>lastUpdate\<close> in \<open>update\<close>: whatever
  path a call takes, the field keeps the value it had before.
\<close>

theorem update_keeps_lastUpdate:
  "update cfg s t count dist startup = Inr s' \<Longrightarrow> lastUpdate s' = lastUpdate s"
  by (auto simp: update_def Let_def split: if_splits sum.splits)

theorem update_keeps_lastUpdate_witness:
  "update (cfg_6x10 0) nv_baseline5 600 8 3 False = Inr nv_strike3
   \<and> lastUpdate nv_strike3 = lastUpdate nv_baseline5
   \<and> lastUpdate nv_strike3 \<noteq> 600"
proof -
  have run: "update (cfg_6x10 0) nv_baseline5 600 8 3 False = Inr nv_strike3"
    by (simp add: run_6x10 nv_baseline5_def nv_strike3_def)
  from update_keeps_lastUpdate [OF run] run show ?thesis
    by (simp add: nv_strike3_def)
qed

section \<open>The queries\<close>

text \<open>
  Claim C4. \<open>lastEvent\<close> returns false exactly when \<open>events\<close> is \<open>-1\<close>, and then leaves
  its reference parameters alone; otherwise it hands out the stored timestamp, events and
  distance as they are. In both cases the record is the one it was.
\<close>

theorem lastEvent_reads_snapshot:
  assumes "lastEvent s out = (ok, (ts, ev, d), s')"
  shows "(\<not> ok \<longleftrightarrow> sint (events s) = - 1)
       \<and> (ok \<longrightarrow> ts = timestamp s \<and> sint ev = sint (events s) \<and> d = distance s)
       \<and> (\<not> ok \<longrightarrow> (ts, ev, d) = out)
       \<and> s' = s"
  using assms by (auto simp: lastEvent_def sint_minus_one_16 sint_promote split: if_splits)

theorem lastEvent_reads_snapshot_witness:
  "lastEvent nv_strike3 (0, 0, 0) = (True, (600, 3, 3), nv_strike3)
   \<and> sint (events nv_strike3) \<noteq> - 1
   \<and> timestamp nv_strike3 = 600 \<and> sint (events nv_strike3) = 3 \<and> distance nv_strike3 = 3
   \<and> lastEvent nv_all_invalid (1, 2, 3) = (False, (1, 2, 3), nv_all_invalid)
   \<and> sint (events nv_all_invalid) = - 1"
proof -
  have run: "lastEvent nv_strike3 (0, 0, 0) = (True, (600, 3, 3), nv_strike3)"
    by (simp add: lastEvent_def nv_strike3_def)
  have none: "lastEvent nv_all_invalid (1, 2, 3) = (False, (1, 2, 3), nv_all_invalid)"
    by (simp add: lastEvent_def nv_all_invalid_def)
  from lastEvent_reads_snapshot [OF run] lastEvent_reads_snapshot [OF none] run none
  show ?thesis by (simp add: nv_strike3_def)
qed

text \<open>
  Claim C3, as amended. \<open>pastHour\<close> hands out the sum, in the 32 bits of \<^verbatim>\<open>int sum\<close>, of
  the buckets that are not \<open>-1\<close>, which is their exact sum whenever that sum lies in the
  range of an \<^verbatim>\<open>int\<close>; it returns true exactly when there is such a bucket; when every
  bucket is \<open>-1\<close> it returns false and the sum 0. The record is the one it was.
\<close>

theorem pastHour_sums_valid:
  assumes "length (hist s) = LIGHTNING_HIST_SIZE cfg"
  shows "pastHour cfg s
           = (\<exists>x\<in>set (hist s). x \<noteq> - 1, sum_list (filter (\<lambda>x. x \<noteq> - 1) (hist s)), s)
       \<and> (- 2147483648 \<le> (\<Sum>x\<leftarrow>filter (\<lambda>x. x \<noteq> - 1) (hist s). sint x)
            \<and> (\<Sum>x\<leftarrow>filter (\<lambda>x. x \<noteq> - 1) (hist s). sint x) < 2147483648
          \<longrightarrow> sint (fst (snd (pastHour cfg s)))
                = (\<Sum>x\<leftarrow>filter (\<lambda>x. x \<noteq> - 1) (hist s). sint x))
       \<and> ((\<forall>x\<in>set (hist s). x = - 1) \<longrightarrow> pastHour cfg s = (False, 0, s))"
proof -
  have eq: "pastHour cfg s
           = (\<exists>x\<in>set (hist s). x \<noteq> - 1, sum_list (filter (\<lambda>x. x \<noteq> - 1) (hist s)), s)"
    using pastHour_loop_list [of "hist s" "(False, 0)"] assms
    by (simp add: pastHour_def pastHour_loop_sum)
  moreover have "sint (fst (snd (pastHour cfg s)))
                = (\<Sum>x\<leftarrow>filter (\<lambda>x. x \<noteq> - 1) (hist s). sint x)"
    if "- 2147483648 \<le> (\<Sum>x\<leftarrow>filter (\<lambda>x. x \<noteq> - 1) (hist s). sint x)"
      "(\<Sum>x\<leftarrow>filter (\<lambda>x. x \<noteq> - 1) (hist s). sint x) < 2147483648"
    using that by (simp add: eq sint_sum_list signed_take_bit_int_eq_self)
  moreover have "pastHour cfg s = (False, 0, s)" if "\<forall>x\<in>set (hist s). x = - 1"
  proof -
    from that have "filter (\<lambda>x. x \<noteq> - 1) (hist s) = []"
      by (simp add: filter_empty_conv)
    with that show ?thesis by (simp add: eq)
  qed
  ultimately show ?thesis by blast
qed

theorem pastHour_sums_valid_witness:
  "length (hist nv_strike3) = LIGHTNING_HIST_SIZE (cfg_6x10 0)
   \<and> pastHour (cfg_6x10 0) nv_strike3 = (True, 35, nv_strike3)
   \<and> sint (fst (snd (pastHour (cfg_6x10 0) nv_strike3))) = 35
   \<and> length (hist nv_all_invalid) = LIGHTNING_HIST_SIZE (cfg_6x10 0)
   \<and> pastHour (cfg_6x10 0) nv_all_invalid = (False, 0, nv_all_invalid)"
proof -
  have h: "length (hist nv_strike3) = LIGHTNING_HIST_SIZE (cfg_6x10 0)"
    by (simp add: cfg_6x10_def nv_strike3_def)
  have h': "length (hist nv_all_invalid) = LIGHTNING_HIST_SIZE (cfg_6x10 0)"
    by (simp add: cfg_6x10_def nv_all_invalid_def)
  have all: "\<forall>x\<in>set (hist nv_all_invalid). x = - 1"
    by (simp add: nv_all_invalid_def)
  from pastHour_sums_valid [OF h'] all
  have "pastHour (cfg_6x10 0) nv_all_invalid = (False, 0, nv_all_invalid)" by blast
  with pastHour_sums_valid [OF h] h h' show ?thesis
    by (simp add: nv_strike3_def)
qed

text \<open>
  Claim C3 as stated fails: on the buckets \<open>2147483647, 1, -1, -1, -1, -1\<close> the exact sum
  is \<open>2147483648\<close> and \<open>pastHour\<close> hands out \<open>-2147483648\<close>.
\<close>

theorem pastHour_sum_wraps:
  "length (hist nv_overflow) = LIGHTNING_HIST_SIZE (cfg_6x10 0)
   \<and> pastHour (cfg_6x10 0) nv_overflow = (True, - 2147483648, nv_overflow)
   \<and> sint (- 2147483648 :: 32 word) = - 2147483648
   \<and> sint (2147483647 :: 32 word) + sint (1 :: 32 word) = 2147483648"
  by (simp add: pastHour_def pastHour_step_def cfg_6x10_def nv_overflow_def upt_conv_Cons)

text \<open>
  Claim C10. At first boot \<open>events\<close> should hold the sentinel \<open>-1\<close>, so that \<open>lastEvent\<close>
  reports that no strike was recorded. The static initialiser sets \<open>events\<close> to \<open>0\<close>
  (and the history to zeros): \<open>lastEvent\<close> on it returns true with an event of count 0
  at time 0. \<open>reset\<close> is the path that sets the sentinel.
\<close>

theorem initial_lastEvent:
  "events (nvLightning cfg) = 0
   \<and> lastEvent (nvLightning cfg) out = (True, (0, 0, 0), nvLightning cfg)
   \<and> events (reset (nvLightning cfg)) = - 1"
  by (simp add: lastEvent_def nvLightning_def reset_def)

section \<open>Baseline and regression\<close>

text \<open>
  Claim C6, as amended. A call of \<open>update\<close> on a record whose \<open>prevCount\<close> is \<open>-1\<close> stores
  the count, cut to the 16 bits of \<open>prevCount\<close>, as the new baseline: it equals the count
  whenever the count lies between \<open>-32768\<close> and \<open>32767\<close>. \<open>events\<close>, \<open>distance\<close>,
  \<open>timestamp\<close> and \<open>lastUpdate\<close> stay as they were (so \<open>events\<close> is still \<open>-1\<close> when it
  was), and every bucket holds the fill value of \<open>hist_init()\<close>; this for every timestamp,
  count, distance and startup flag.
\<close>

theorem cold_start_baseline:
  assumes "prevCount s = - 1" and "length (hist s) = LIGHTNING_HIST_SIZE cfg"
  shows "\<exists>s'. update cfg s t count dist startup = Inr s'
           \<and> sint (prevCount s') = signed_take_bit 15 (sint count)
           \<and> (- 32768 \<le> sint count \<and> sint count < 32768 \<longrightarrow> sint (prevCount s') = sint count)
           \<and> events s' = events s \<and> distance s' = distance s \<and> timestamp s' = timestamp s
           \<and> lastUpdate s' = lastUpdate s
           \<and> hist s' = replicate (LIGHTNING_HIST_SIZE cfg) (ucast (hist_init_default cfg))"
  using assms
  by (simp add: update_def hist_init_hist sint_narrow signed_take_bit_int_eq_self)

theorem cold_start_baseline_witness:
  "prevCount (reset (nvLightning (cfg_6x10 0))) = - 1
   \<and> length (hist (reset (nvLightning (cfg_6x10 0)))) = LIGHTNING_HIST_SIZE (cfg_6x10 0)
   \<and> (\<exists>s'. update (cfg_6x10 0) (reset (nvLightning (cfg_6x10 0))) 600 5 3 False = Inr s'
          \<and> sint (prevCount s') = 5
          \<and> events s' = - 1 \<and> distance s' = 0 \<and> timestamp s' = 0 \<and> lastUpdate s' = 0
          \<and> hist s' = replicate 6 0)"
proof -
  let ?s = "reset (nvLightning (cfg_6x10 0))"
  have h1: "prevCount ?s = - 1" by (simp add: reset_def)
  have h2: "length (hist ?s) = LIGHTNING_HIST_SIZE (cfg_6x10 0)"
    by (simp add: reset_def nvLightning_def)
  from cold_start_baseline [OF h1 h2, of 600 5 3 False] h1 h2 show ?thesis
    by (simp add: reset_def nvLightning_def cfg_6x10_def)
qed

text \<open>
  Claim C6 as stated fails: from the all-sentinel record, a count of 40000 leaves
  \<open>prevCount = -25536\<close>, not the count.
\<close>

theorem cold_start_count_truncated:
  "prevCount (reset (nvLightning (cfg_6x10 0))) = - 1
   \<and> update (cfg_6x10 0) (reset (nvLightning (cfg_6x10 0))) 600 40000 3 False
       = Inr ((reset (nvLightning (cfg_6x10 0)))\<lparr>prevCount := - 25536\<rparr>)
   \<and> sint (- 25536 :: 16 word) \<noteq> sint (40000 :: 32 word)"
  by (simp only: nvLightning_6x10) (simp add: reset_def run_6x10)

text \<open>
  Claim C5. With a baseline \<open>P \<ge> 0\<close> and a count \<open>P - k\<close> below it (\<open>k > 0\<close>), \<open>update\<close>
  makes the count the new baseline and changes nothing else: \<open>events\<close>, \<open>distance\<close>,
  \<open>timestamp\<close>, every bucket and \<open>lastUpdate\<close> are as before. The count is a count of the
  sensor, which the input contract gives as not negative; the theorem takes every count
  from \<open>-32768\<close> on, the range of \<open>prevCount\<close>.
\<close>

theorem regression_rebaselines:
  assumes "sint (prevCount s) = P" and "0 \<le> P" and "0 < k"
    and "sint count = P - k" and "- 32768 \<le> P - k"
  shows "\<exists>s'. update cfg s t count dist startup = Inr s'
           \<and> sint (prevCount s') = P - k
           \<and> events s' = events s \<and> distance s' = distance s \<and> timestamp s' = timestamp s
           \<and> hist s' = hist s \<and> lastUpdate s' = lastUpdate s"
proof -
  from assms have "prevCount s \<noteq> - 1" by auto
  moreover from assms have "sint count < sint (prevCount s)" by simp
  moreover from assms sint16_range(2) [of "prevCount s"]
  have "sint (ucast count :: 16 word) = P - k"
    by (simp add: sint_narrow_id)
  ultimately show ?thesis by (simp add: update_def)
qed

theorem regression_rebaselines_witness:
  "sint (prevCount nv_baseline5) = 5 \<and> (0::int) \<le> 5 \<and> (0::int) < 3
   \<and> sint (2 :: 32 word) = 5 - 3 \<and> - 32768 \<le> (5::int) - 3
   \<and> (\<exists>s'. update (cfg_6x10 0) nv_baseline5 600 2 3 False = Inr s'
          \<and> sint (prevCount s') = 2
          \<and> events s' = - 1 \<and> distance s' = 0 \<and> timestamp s' = 0
          \<and> hist s' = [7, 7, 7, 7, 7, 7] \<and> lastUpdate s' = 0)"
proof -
  have h1: "sint (prevCount nv_baseline5) = 5" by (simp add: nv_baseline5_def)
  have h4: "sint (2 :: 32 word) = 5 - 3" by simp
  from regression_rebaselines [OF h1 _ _ h4, of "cfg_6x10 0" 600 3 False] h1
  show ?thesis by (simp add: nv_baseline5_def)
qed

section \<open>New events\<close>

text \<open>
  Claim C2. With a baseline \<open>P \<ge> 0\<close>, a count \<open>P + d\<close> above it (\<open>d > 0\<close>) and a normal
  elapsed time, \<open>update\<close> should record \<open>events = d\<close>, the call's distance and timestamp,
  and write \<open>d\<close> into the bucket of the timestamp. The source writes
  \<^verbatim>\<open>count - nvLightning.prevCount\<close> into the bucket after it has assigned
  \<^verbatim>\<open>nvLightning.prevCount = count\<close>: for every count that fits \<open>prevCount\<close> the snapshot
  is as claimed, but the bucket holds \<open>0\<close> (or \<open>-1\<close>, when the loop that marks missing
  buckets reaches it), never \<open>d\<close>.
\<close>

theorem strike_bucket_never_delta:
  assumes "60 \<le> LIGHTNING_HIST_SIZE cfg * LIGHTNING_UPD_RATE cfg" and "\<forall>t. tm_min cfg t < 60"
    and "length (hist s) = LIGHTNING_HIST_SIZE cfg"
    and "sint (prevCount s) = P" and "0 \<le> P" and "0 < d"
    and "sint count = P + d" and "P + d < 32768"
    and "0 \<le> t - lastUpdate s"
    and "t - lastUpdate s < int (LIGHTNING_HIST_SIZE cfg * LIGHTNING_UPD_RATE cfg * 60)"
  shows "\<exists>s'. update cfg s t count dist startup = Inr s'
           \<and> sint (events s') = d \<and> distance s' = dist \<and> timestamp s' = t
           \<and> (hist s' ! hist_idx cfg t = 0 \<or> hist s' ! hist_idx cfg t = - 1)
           \<and> sint (hist s' ! hist_idx cfg t) \<noteq> d"
proof -
  from update_total [OF assms(1,2)] obtain s'
    where run: "update cfg s t count dist startup = Inr s'" by blast
  from assms have base: "prevCount s \<noteq> - 1" "sint (prevCount s) < sint count" by auto
  from update_strike [OF run base assms(9,10)] obtain ts
    where ev: "events s' = ucast (count - scast (prevCount s))"
      and snap: "distance s' = dist" "timestamp s' = t"
      and idx: "hist_idx cfg t < LIGHTNING_HIST_SIZE cfg"
      and mark: "mark_invalid cfg ts t
              ((hist s)[hist_idx cfg t := count - scast (ucast count :: 16 word)]) = Inr (hist s')"
    by blast
  from assms have fits: "- 32768 \<le> sint count" "sint count < 32768" by simp_all
  have "sint (count - scast (prevCount s)) = d"
    using assms by (simp add: sint_diff_promote signed_take_bit_int_eq_self)
  with assms have "sint (events s') = d"
    by (simp add: ev sint_narrow_id)
  moreover have "count - scast (ucast count :: 16 word) = 0"
    using fits by (simp add: scast_narrow_id)
  with mark_invalid_cases [OF mark, of "hist_idx cfg t"] idx assms(3)
  have bucket: "hist s' ! hist_idx cfg t = 0 \<or> hist s' ! hist_idx cfg t = - 1"
    by auto
  moreover from bucket \<open>0 < d\<close> have "sint (hist s' ! hist_idx cfg t) \<noteq> d" by auto
  ultimately show ?thesis using run snap by blast
qed

theorem strike_bucket_never_delta_witness:
  "60 \<le> LIGHTNING_HIST_SIZE (cfg_6x10 0) * LIGHTNING_UPD_RATE (cfg_6x10 0)
   \<and> (\<forall>t. tm_min (cfg_6x10 0) t < 60)
   \<and> length (hist nv_baseline5) = LIGHTNING_HIST_SIZE (cfg_6x10 0)
   \<and> sint (prevCount nv_baseline5) = 5 \<and> (0::int) \<le> 5 \<and> (0::int) < 3
   \<and> sint (8 :: 32 word) = 5 + 3 \<and> (5::int) + 3 < 32768
   \<and> 0 \<le> 600 - lastUpdate nv_baseline5
   \<and> 600 - lastUpdate nv_baseline5
        < int (LIGHTNING_HIST_SIZE (cfg_6x10 0) * LIGHTNING_UPD_RATE (cfg_6x10 0) * 60)
   \<and> update (cfg_6x10 0) nv_baseline5 600 8 3 False = Inr nv_strike3
   \<and> hist_idx (cfg_6x10 0) 600 = 1
   \<and> sint (events nv_strike3) = 3
   \<and> hist nv_strike3 ! 1 = 0
   \<and> sint (hist nv_strike3 ! hist_idx (cfg_6x10 0) 600) \<noteq> 3"
proof -
  have h1: "60 \<le> LIGHTNING_HIST_SIZE (cfg_6x10 0) * LIGHTNING_UPD_RATE (cfg_6x10 0)"
    by (simp add: cfg_6x10_def)
  have h2: "\<forall>t. tm_min (cfg_6x10 0) t < 60"
    by (simp add: cfg_6x10_def fixed_offset_min_less)
  have h3: "length (hist nv_baseline5) = LIGHTNING_HIST_SIZE (cfg_6x10 0)"
    by (simp add: cfg_6x10_def nv_baseline5_def)
  have h4: "sint (prevCount nv_baseline5) = 5" by (simp add: nv_baseline5_def)
  have h7: "sint (8 :: 32 word) = 5 + 3" by simp
  have h9: "0 \<le> 600 - lastUpdate nv_baseline5" by (simp add: nv_baseline5_def)
  have h10: "600 - lastUpdate nv_baseline5
        < int (LIGHTNING_HIST_SIZE (cfg_6x10 0) * LIGHTNING_UPD_RATE (cfg_6x10 0) * 60)"
    by (simp add: cfg_6x10_def nv_baseline5_def)
  have run: "update (cfg_6x10 0) nv_baseline5 600 8 3 False = Inr nv_strike3"
    by (simp add: run_6x10 nv_baseline5_def nv_strike3_def)
  have i: "hist_idx (cfg_6x10 0) 600 = 1"
    by (simp add: cfg_6x10_def hist_idx_def fixed_offset_min_def)
  from strike_bucket_never_delta [OF h1 h2 h3 h4 _ _ h7 _ h9 h10, of 3 False]
  have "sint (hist nv_strike3 ! hist_idx (cfg_6x10 0) 600) \<noteq> 3"
    by (simp add: run)
  with h1 h2 h3 h4 h9 h10 run i show ?thesis
    by (simp add: nv_strike3_def)
qed

section \<open>The history window\<close>




section \<open>Bucket indices\<close>

text \<open>
  Claim C9, as amended. When \<open>60 \<le> HIST_SIZE * UPD_RATE\<close> (with the specification's
  \<open>HIST_SIZE * UPD_RATE \<le> 60\<close>: when the product is 60) and \<open>tm_min\<close> is a minute of the
  hour, the bucket index of every time is below \<open>HIST_SIZE\<close>; so the loop that marks
  missing buckets and \<open>update\<close> as a whole end without a write outside the array.
\<close>

theorem hist_writes_in_bounds:
  assumes "60 \<le> LIGHTNING_HIST_SIZE cfg * LIGHTNING_UPD_RATE cfg" and "\<forall>t. tm_min cfg t < 60"
  shows "hist_idx cfg ts < LIGHTNING_HIST_SIZE cfg
       \<and> (\<exists>h'. mark_invalid cfg ts t h = Inr h')
       \<and> (\<exists>s'. update cfg s t count dist startup = Inr s')"
  using assms hist_idx_bound [OF assms] mark_invalid_total [OF upd_rate_pos [OF assms(1)]]
    update_total [OF assms]
  by (simp add: hist_idx_bound)

theorem hist_writes_in_bounds_witness:
  "60 \<le> LIGHTNING_HIST_SIZE (cfg_6x10 0) * LIGHTNING_UPD_RATE (cfg_6x10 0)
   \<and> (\<forall>t. tm_min (cfg_6x10 0) t < 60)
   \<and> hist_idx (cfg_6x10 0) 3300 < LIGHTNING_HIST_SIZE (cfg_6x10 0)
   \<and> (\<exists>h'. mark_invalid (cfg_6x10 0) 600 3300 (hist nv_baseline5) = Inr h')
   \<and> (\<exists>s'. update (cfg_6x10 0) nv_baseline5 3300 8 3 False = Inr s')"
proof -
  have h1: "60 \<le> LIGHTNING_HIST_SIZE (cfg_6x10 0) * LIGHTNING_UPD_RATE (cfg_6x10 0)"
    by (simp add: cfg_6x10_def)
  have h2: "\<forall>t. tm_min (cfg_6x10 0) t < 60"
    by (simp add: cfg_6x10_def fixed_offset_min_less)
  from hist_writes_in_bounds [OF h1 h2] h1 h2 show ?thesis by blast
qed

text \<open>
  Claim C9 as stated fails: five buckets of ten minutes satisfy
  \<open>HIST_SIZE * UPD_RATE \<le> 60\<close>, and at minute 55 the index is 5, outside the array.
\<close>

theorem hist_write_out_of_bounds:
  "LIGHTNING_HIST_SIZE cfg_5x10 * LIGHTNING_UPD_RATE cfg_5x10 \<le> 60
   \<and> tm_min cfg_5x10 3300 = 55
   \<and> hist_idx cfg_5x10 3300 = 5
   \<and> \<not> hist_idx cfg_5x10 3300 < LIGHTNING_HIST_SIZE cfg_5x10
   \<and> length (hist nv_five_buckets) = LIGHTNING_HIST_SIZE cfg_5x10
   \<and> update cfg_5x10 nv_five_buckets 3300 8 3 False = Inl HistIndexOutOfBounds"
  by (simp add: update_def cfg_5x10_def hist_idx_def fixed_offset_min_def nv_five_buckets_def)

section \<open>Missing buckets\<close>

text \<open>
  Claim C8. Of two consecutive updates that lie \<open>n\<close> bucket periods apart, the second
  should mark as \<open>-1\<close> only the buckets missed in between, never the bucket of its own
  timestamp, and leave every other bucket alone. \<open>update\<close> measures the gap from
  \<open>lastUpdate\<close>, which no call advances: as soon as the stored \<open>lastUpdate\<close> lies more than
  a window before the second timestamp, the second update resets the history and its walk
  marks every bucket, the one of its own timestamp included.
\<close>

theorem consecutive_updates_invalidate_all:
  assumes cover: "LIGHTNING_HIST_SIZE cfg * LIGHTNING_UPD_RATE cfg = 60"
    and clock: "tm_min cfg = fixed_offset_min off"
    and len: "length (hist s) = LIGHTNING_HIST_SIZE cfg"
    and first: "update cfg s t1 count1 dist1 startup1 = Inr s1"
    and base: "prevCount s1 \<noteq> - 1" "\<not> sint count2 < sint (prevCount s1)"
    and stale: "int (LIGHTNING_HIST_SIZE cfg * LIGHTNING_UPD_RATE cfg * 60)
                  < t1 + int (n * (LIGHTNING_UPD_RATE cfg * 60)) - lastUpdate s"
  shows "\<exists>s2. update cfg s1 (t1 + int (n * (LIGHTNING_UPD_RATE cfg * 60))) count2 dist2 startup2
                = Inr s2
           \<and> lastUpdate s2 = lastUpdate s
           \<and> (\<forall>i < LIGHTNING_HIST_SIZE cfg. hist s2 ! i = - 1)
           \<and> hist s2 ! hist_idx cfg (t1 + int (n * (LIGHTNING_UPD_RATE cfg * 60))) = - 1"
proof -
  let ?H = "LIGHTNING_HIST_SIZE cfg" and ?U = "LIGHTNING_UPD_RATE cfg"
  let ?t2 = "t1 + int (n * (?U * 60))"
  from cover have cover': "60 \<le> ?H * ?U" by simp
  have minute: "\<forall>t. tm_min cfg t < 60"
    by (simp add: clock fixed_offset_min_less)
  have last1: "lastUpdate s1 = lastUpdate s"
    using first by (rule update_lastUpdate)
  have len1: "length (hist s1) = ?H"
    using first len by (rule update_length)
  from update_total [OF cover' minute] obtain s2
    where run: "update cfg s1 ?t2 count2 dist2 startup2 = Inr s2" by blast
  have last2: "lastUpdate s2 = lastUpdate s"
    using update_lastUpdate [OF run] last1 by simp
  from stale last1 have late: "int (?H * ?U * 60) \<le> ?t2 - lastUpdate s1"
    and strict: "int (?H * ?U * 60) < ?t2 - lastUpdate s1" by simp_all
  from update_after_window [OF run len1 base late]
  have idx: "hist_idx cfg ?t2 < ?H"
    and mark: "mark_invalid cfg (lastUpdate s1 + int (?U * 60)) ?t2
            ((replicate ?H (ucast (hist_init_default cfg)))
               [hist_idx cfg ?t2 := count2 - scast (prevCount s2)]) = Inr (hist s2)"
    by simp_all
  have each: "hist s2 ! i = - 1" if "i < ?H" for i
  proof -
    from that have "i < length ((replicate ?H (ucast (hist_init_default cfg)))
               [hist_idx cfg ?t2 := count2 - scast (prevCount s2)])" by simp
    from mark_invalid_nth [OF mark this]
    have "hist s2 ! i =
            (if i \<in> walked_buckets cfg (lastUpdate s1) ?t2 then - 1
             else (replicate ?H (ucast (hist_init_default cfg)))
               [hist_idx cfg ?t2 := count2 - scast (prevCount s2)] ! i)"
      unfolding walked_buckets_walk .
    moreover from strict have "i \<noteq> hist_idx cfg ?t2 \<or> int (?H * ?U * 60) < ?t2 - lastUpdate s1"
      by (rule disjI2)
    from walked_after_window [OF cover clock late that this]
    have "i \<in> walked_buckets cfg (lastUpdate s1) ?t2" .
    ultimately show ?thesis by simp
  qed
  from each [OF idx] each run last2 show ?thesis by blast
qed

theorem consecutive_updates_invalidate_all_witness:
  "LIGHTNING_HIST_SIZE (cfg_6x10 0) * LIGHTNING_UPD_RATE (cfg_6x10 0) = 60
   \<and> tm_min (cfg_6x10 0) = fixed_offset_min 0
   \<and> length (hist nv_baseline5) = LIGHTNING_HIST_SIZE (cfg_6x10 0)
   \<and> update (cfg_6x10 0) nv_baseline5 6000 6 1 False = Inr nv_pair_first
   \<and> prevCount nv_pair_first \<noteq> - 1 \<and> \<not> sint (7 :: 32 word) < sint (prevCount nv_pair_first)
   \<and> int (LIGHTNING_HIST_SIZE (cfg_6x10 0) * LIGHTNING_UPD_RATE (cfg_6x10 0) * 60)
        < 6000 + int (2 * (LIGHTNING_UPD_RATE (cfg_6x10 0) * 60)) - lastUpdate nv_baseline5
   \<and> 6000 + int (2 * (LIGHTNING_UPD_RATE (cfg_6x10 0) * 60)) = 7200
   \<and> update (cfg_6x10 0) nv_pair_first 7200 7 2 False = Inr nv_pair_second
   \<and> lastUpdate nv_pair_second = lastUpdate nv_baseline5
   \<and> hist nv_pair_second = [- 1, - 1, - 1, - 1, - 1, - 1]
   \<and> hist_idx (cfg_6x10 0) 7200 = 0
   \<and> hist nv_pair_second ! hist_idx (cfg_6x10 0) 7200 = - 1"
proof -
  have h1: "LIGHTNING_HIST_SIZE (cfg_6x10 0) * LIGHTNING_UPD_RATE (cfg_6x10 0) = 60"
    by (simp add: cfg_6x10_def)
  have h2: "tm_min (cfg_6x10 0) = fixed_offset_min 0"
    by (simp add: cfg_6x10_def)
  have h3: "length (hist nv_baseline5) = LIGHTNING_HIST_SIZE (cfg_6x10 0)"
    by (simp add: cfg_6x10_def nv_baseline5_def)
  have h4: "update (cfg_6x10 0) nv_baseline5 6000 6 1 False = Inr nv_pair_first"
    by (simp add: run_6x10 nv_baseline5_def nv_pair_first_def)
  have h5: "prevCount nv_pair_first \<noteq> - 1" by (simp add: nv_pair_first_def)
  have h6: "\<not> sint (7 :: 32 word) < sint (prevCount nv_pair_first)"
    by (simp add: nv_pair_first_def)
  have h7: "int (LIGHTNING_HIST_SIZE (cfg_6x10 0) * LIGHTNING_UPD_RATE (cfg_6x10 0) * 60)
        < 6000 + int (2 * (LIGHTNING_UPD_RATE (cfg_6x10 0) * 60)) - lastUpdate nv_baseline5"
    by (simp add: cfg_6x10_def nv_baseline5_def)
  have t2: "6000 + int (2 * (LIGHTNING_UPD_RATE (cfg_6x10 0) * 60)) = 7200"
    by (simp add: cfg_6x10_def)
  have run: "update (cfg_6x10 0) nv_pair_first 7200 7 2 False = Inr nv_pair_second"
    by (simp add: run_6x10 nv_pair_first_def nv_pair_second_def)
  have i: "hist_idx (cfg_6x10 0) 7200 = 0"
    by (simp add: cfg_6x10_def hist_idx_def fixed_offset_min_def)
  from consecutive_updates_invalidate_all [OF h1 h2 h3 h4 h5 h6 h7, of 2 False]
  have "hist nv_pair_second ! hist_idx (cfg_6x10 0) 7200 = - 1
      \<and> lastUpdate nv_pair_second = lastUpdate nv_baseline5"
    unfolding t2 run by blast
  with h1 h2 h3 h4 h5 h6 h7 t2 run i show ?thesis
    by (simp add: nv_pair_second_def)
qed

text \<open>
  For comparison, one call whose stored \<open>lastUpdate\<close> does lie exactly \<open>n\<close> periods before
  the timestamp, inside the window: the walk marks the \<open>n - 1\<close> buckets of the boundaries
  in between, spares the bucket of the timestamp and keeps the rest.
\<close>

lemma walk_of_n_periods:
  assumes cover: "LIGHTNING_HIST_SIZE cfg * LIGHTNING_UPD_RATE cfg = 60"
    and clock: "tm_min cfg = fixed_offset_min off"
    and len: "length (hist s) = LIGHTNING_HIST_SIZE cfg"
    and base: "prevCount s \<noteq> - 1" "\<not> sint count < sint (prevCount s)"
    and n: "1 \<le> n" "n < LIGHTNING_HIST_SIZE cfg"
    and t: "t = lastUpdate s + int (n * (LIGHTNING_UPD_RATE cfg * 60))"
  shows "\<exists>s'. update cfg s t count dist startup = Inr s'
           \<and> length (hist s') = LIGHTNING_HIST_SIZE cfg
           \<and> (\<forall>i < LIGHTNING_HIST_SIZE cfg.
                 hist s' ! i =
                   (if i \<in> gap_buckets cfg (lastUpdate s) n then - 1
                    else if i = hist_idx cfg t then count - scast (prevCount s')
                    else hist s ! i))
           \<and> card (gap_buckets cfg (lastUpdate s) n) = n - 1
           \<and> hist_idx cfg t \<notin> gap_buckets cfg (lastUpdate s) n"
proof -
  let ?H = "LIGHTNING_HIST_SIZE cfg" and ?U = "LIGHTNING_UPD_RATE cfg"
  from cover have cover': "60 \<le> ?H * ?U" by simp
  then have rate: "0 < ?U" by (rule upd_rate_pos)
  have minute: "\<forall>t. tm_min cfg t < 60"
    by (simp add: clock fixed_offset_min_less)
  from update_total [OF cover' minute] obtain s'
    where run: "update cfg s t count dist startup = Inr s'" by blast
  have early: "0 \<le> t - lastUpdate s" "t - lastUpdate s < int (?H * ?U * 60)"
  proof -
    show "0 \<le> t - lastUpdate s" by (simp add: t)
    from n(2) rate have "n * (?U * 60) < ?H * (?U * 60)" by simp
    then have "int (n * (?U * 60)) < int (?H * (?U * 60))" by (simp only: of_nat_less_iff)
    then show "t - lastUpdate s < int (?H * ?U * 60)" by (simp add: t mult.assoc)
  qed
  from update_in_window [OF run base early]
  have idx: "hist_idx cfg t < ?H"
    and mark: "mark_invalid cfg (lastUpdate s + int (?U * 60)) t
              ((hist s)[hist_idx cfg t := count - scast (prevCount s')]) = Inr (hist s')"
    by simp_all
  have length: "length (hist s') = ?H"
    using mark_invalid_length [OF mark] len by simp
  have out: "hist_idx cfg t \<notin> gap_buckets cfg (lastUpdate s) n"
    unfolding t using cover clock n(2) by (rule current_bucket_not_in_gap)
  have each: "hist s' ! i =
                   (if i \<in> gap_buckets cfg (lastUpdate s) n then - 1
                    else if i = hist_idx cfg t then count - scast (prevCount s')
                    else hist s ! i)" if "i < ?H" for i
  proof -
    from that len have "i < length ((hist s)[hist_idx cfg t := count - scast (prevCount s')])"
      by simp
    from mark_invalid_nth [OF mark this]
    have "hist s' ! i =
            (if i \<in> gap_buckets cfg (lastUpdate s) n then - 1
             else (hist s)[hist_idx cfg t := count - scast (prevCount s')] ! i)"
      unfolding t gap_buckets_walk [OF rate] .
    with that len show ?thesis by (simp add: nth_list_update)
  qed
  from run length each gap_buckets_card [OF cover clock n(2)] out show ?thesis by blast
qed

end
